theory Spec2Isabelle
  imports Main
begin

section \<open>Python strings\<close>

text \<open>
  A Python \<open>str\<close> is a sequence of Unicode code points and \<open>len\<close> counts code points,
  so a string is a list of code points here. ASCII literals are written through \<open>cps\<close>.
\<close>

type_synonym codepoint = nat
type_synonym pystr = "codepoint list"

definition ord :: "char \<Rightarrow> codepoint" where
  "ord c = of_char c"

definition cps :: "string \<Rightarrow> pystr" where
  "cps s = map ord s"

text \<open>
  \<open>str.upper()\<close> maps every code point on its own to its full uppercase mapping, a
  string of one to three code points, and concatenates the results. On ASCII it turns
  \<open>a..z\<close> into \<open>A..Z\<close> and keeps everything else. The mapping of the code points from 128
  on lives in the Unicode tables of the Python runtime, not in this repository: it is
  the parameter \<open>U\<close> of everything below.
\<close>

definition ascii_upper :: "codepoint \<Rightarrow> codepoint" where
  "ascii_upper c = (if ord CHR ''a'' \<le> c \<and> c \<le> ord CHR ''z'' then c - 32 else c)"

definition upper_cp :: "(codepoint \<Rightarrow> pystr) \<Rightarrow> codepoint \<Rightarrow> pystr" where
  "upper_cp U c = (if c < 128 then [ascii_upper c] else U c)"

definition upper :: "(codepoint \<Rightarrow> pystr) \<Rightarrow> pystr \<Rightarrow> pystr" where
  "upper U s = concat (map (upper_cp U) s)"

text \<open>
  For evaluation at concrete inputs: the one entry of the runtime's table that the
  concrete inputs below touch, U+00DF (sharp s), whose uppercase is the two letters
  \<open>SS\<close>. No other code point from 128 on is ever evaluated through it.
\<close>

definition sharp_s_upper :: "codepoint \<Rightarrow> pystr" where
  "sharp_s_upper c = (if c = 223 then cps ''SS'' else [c])"

section \<open>The pattern of \<open>is_valid_gstin_format\<close>\<close>

text \<open>
  The pattern \<^verbatim>\<open>^[0-9]{2}[A-Z]{5}[0-9]{4}[A-Z]{1}[1-9A-Z]{1}Z[0-9A-Z]{1}$\<close> is a sequence
  of fifteen one-character classes between the two anchors. The classes are ranges of
  code points (no flag is given, so they are the ASCII ranges only).
\<close>

datatype cclass = Digit | Letter | Digit19_or_Letter | Literal_Z | Digit_or_Letter

definition is_digit :: "codepoint \<Rightarrow> bool" where
  "is_digit c = (ord CHR ''0'' \<le> c \<and> c \<le> ord CHR ''9'')"

definition is_letter :: "codepoint \<Rightarrow> bool" where
  "is_letter c = (ord CHR ''A'' \<le> c \<and> c \<le> ord CHR ''Z'')"

fun in_class :: "cclass \<Rightarrow> codepoint \<Rightarrow> bool" where
  "in_class Digit c = is_digit c"
| "in_class Letter c = is_letter c"
| "in_class Digit19_or_Letter c = ((ord CHR ''1'' \<le> c \<and> c \<le> ord CHR ''9'') \<or> is_letter c)"
| "in_class Literal_Z c = (c = ord CHR ''Z'')"
| "in_class Digit_or_Letter c = (is_digit c \<or> is_letter c)"

definition pattern :: "cclass list" where
  "pattern = replicate 2 Digit @ replicate 5 Letter @ replicate 4 Digit
             @ replicate 1 Letter @ replicate 1 Digit19_or_Letter @ [Literal_Z]
             @ replicate 1 Digit_or_Letter"

text \<open>
  \<open>match_classes\<close> consumes one character per class from the start of the string (the
  anchor \<^verbatim>\<open>^\<close> with \<open>re.match\<close>) and gives back what is left, or \<open>None\<close> on a mismatch.
\<close>

fun match_classes :: "cclass list \<Rightarrow> pystr \<Rightarrow> pystr option" where
  "match_classes [] t = Some t"
| "match_classes (k # ks) [] = None"
| "match_classes (k # ks) (c # t) = (if in_class k c then match_classes ks t else None)"

text \<open>
  Without \<open>re.MULTILINE\<close> the anchor \<^verbatim>\<open>$\<close> matches at the end of the string and also
  just before a newline that is the last character of the string.
\<close>

definition at_dollar :: "pystr \<Rightarrow> bool" where
  "at_dollar rest = (rest = [] \<or> rest = [10])"

definition re_match_pattern :: "pystr \<Rightarrow> bool" where
  "re_match_pattern t =
     (case match_classes pattern t of None \<Rightarrow> False | Some rest \<Rightarrow> at_dollar rest)"

section \<open>The GSTIN helpers of \<open>app.py\<close>\<close>

definition AMBIGUOUS_MAPS :: "(codepoint \<times> codepoint) list" where
  "AMBIGUOUS_MAPS =
     [(ord CHR ''8'', ord CHR ''B''),
      (ord CHR ''0'', ord CHR ''O''),
      (ord CHR ''1'', ord CHR ''I''),
      (ord CHR ''l'', ord CHR ''1'')]"

definition is_valid_gstin_format :: "(codepoint \<Rightarrow> pystr) \<Rightarrow> pystr \<Rightarrow> bool" where
  "is_valid_gstin_format U gstin =
     (if length gstin \<noteq> 15 then False else re_match_pattern (upper U gstin))"

text \<open>
  The only statements of \<open>try_fix_gstin\<close> that can raise on a string are the two
  assignments \<open>chars[i] = ...\<close>: an index out of range is an \<open>IndexError\<close>.
  The other errors belong to \<open>post_process_invoice_data\<close> below.
\<close>

datatype py_error = IndexError | KeyError | TypeError | AttributeError

definition list_setitem :: "'a list \<Rightarrow> nat \<Rightarrow> 'a \<Rightarrow> py_error + 'a list" where
  "list_setitem xs i v = (if i < length xs then Inr (xs[i := v]) else Inl IndexError)"

text \<open>
  What one run of a loop body leaves behind: a \<open>return\<close> with the candidate, or the
  (mutable) list \<open>chars\<close> as the next iteration finds it.
\<close>

datatype flow = Return pystr | Continue pystr

text \<open>The inner loop \<open>for wrong, alt in AMBIGUOUS_MAPS\<close>, at position \<open>i\<close> with character \<open>ch\<close>.\<close>

fun try_maps ::
  "(codepoint \<Rightarrow> pystr) \<Rightarrow> nat \<Rightarrow> codepoint \<Rightarrow> (codepoint \<times> codepoint) list \<Rightarrow> pystr
     \<Rightarrow> py_error + flow" where
  "try_maps U i ch [] chars = Inr (Continue chars)"
| "try_maps U i ch ((wrong, alt) # rest) chars =
     (if ch = wrong then
        (case list_setitem chars i alt of
           Inl e \<Rightarrow> Inl e
         | Inr chars1 \<Rightarrow>
             (let candidate = chars1 in
              if is_valid_gstin_format U candidate then Inr (Return candidate)
              else (case list_setitem chars1 i ch of
                      Inl e \<Rightarrow> Inl e
                    | Inr chars2 \<Rightarrow> try_maps U i ch rest chars2)))
      else try_maps U i ch rest chars)"

text \<open>
  The outer loop \<open>for i, ch in enumerate(chars)\<close>: the list iterator reads \<open>chars[i]\<close>
  of the list as it is when the iteration starts, and stops when \<open>i\<close> reaches its length.
  \<open>None\<close> is the loop running to its end without a \<open>return\<close>.
\<close>

function scan_chars :: "(codepoint \<Rightarrow> pystr) \<Rightarrow> nat \<Rightarrow> pystr \<Rightarrow> py_error + pystr option" where
  "scan_chars U i chars =
     (if i < length chars then
        (case try_maps U i (chars ! i) AMBIGUOUS_MAPS chars of
           Inl e \<Rightarrow> Inl e
         | Inr (Return candidate) \<Rightarrow> Inr (Some candidate)
         | Inr (Continue chars') \<Rightarrow> scan_chars U (Suc i) chars')
      else Inr None)"
  by pat_completeness auto
termination
proof (relation "measure (\<lambda>(U, i, chars). length chars - i)")
  show "wf (measure (\<lambda>(U, i, chars). length chars - i))"
    by simp
next
  fix U :: "codepoint \<Rightarrow> pystr" and i chars fl chars'
  assume i: "i < length chars"
    and run: "try_maps U i (chars ! i) AMBIGUOUS_MAPS chars = Inr fl"
    and fl: "fl = Continue chars'"
  have same: "length c' = length c"
    if "try_maps U i ch maps c = Inr (Continue c')" for ch maps c c'
    using that
    by (induction maps arbitrary: c)
       (auto simp: list_setitem_def Let_def split: if_splits sum.splits)
  from run fl have "length chars' = length chars"
    by (simp add: same)
  with i show "((U, Suc i, chars'), (U, i, chars)) \<in> measure (\<lambda>(U, i, chars). length chars - i)"
    by simp
qed

definition try_fix_gstin :: "(codepoint \<Rightarrow> pystr) \<Rightarrow> pystr \<Rightarrow> py_error + pystr" where
  "try_fix_gstin U gstin =
     (if is_valid_gstin_format U gstin then Inr gstin
      else
        (let original = gstin;
             chars = upper U gstin
         in case scan_chars U 0 chars of
              Inl e \<Rightarrow> Inl e
            | Inr (Some candidate) \<Rightarrow> Inr candidate
            | Inr None \<Rightarrow> Inr original))"

section \<open>\<open>post_process_invoice_data\<close>\<close>

text \<open>
  The values of the dictionary that \<open>CustomTaxInvoice.dict()\<close> produces: strings, \<open>None\<close>,
  lists and nested dictionaries. \<open>truthy\<close> is the truth value an \<open>if\<close> gives them.
\<close>

datatype pyval = PStr pystr | PNone | PList "pyval list" | PDict "(pystr \<times> pyval) list"

fun truthy :: "pyval \<Rightarrow> bool" where
  "truthy (PStr s) = (s \<noteq> [])"
| "truthy PNone = False"
| "truthy (PList xs) = (xs \<noteq> [])"
| "truthy (PDict kvs) = (kvs \<noteq> [])"

type_synonym pydict = "pystr \<rightharpoonup> pyval"

text \<open>\<open>d.get(k)\<close> gives \<open>None\<close> for a missing key; \<open>d[k]\<close> raises \<open>KeyError\<close>.\<close>

definition dict_get :: "pydict \<Rightarrow> pystr \<Rightarrow> pyval" where
  "dict_get d k = (case d k of None \<Rightarrow> PNone | Some v \<Rightarrow> v)"

definition dict_getitem :: "pydict \<Rightarrow> pystr \<Rightarrow> py_error + pyval" where
  "dict_getitem d k = (case d k of None \<Rightarrow> Inl KeyError | Some v \<Rightarrow> Inr v)"

text \<open>
  The call \<open>try_fix_gstin(v)\<close> on a value of any type. \<open>len(None)\<close> is a \<open>TypeError\<close>; a
  list or a dictionary has a length but no method \<open>upper\<close>, which both paths through
  \<open>try_fix_gstin\<close> call: an \<open>AttributeError\<close>.
\<close>

fun call_try_fix_gstin :: "(codepoint \<Rightarrow> pystr) \<Rightarrow> pyval \<Rightarrow> py_error + pyval" where
  "call_try_fix_gstin U (PStr s) =
     (case try_fix_gstin U s of Inl e \<Rightarrow> Inl e | Inr r \<Rightarrow> Inr (PStr r))"
| "call_try_fix_gstin U PNone = Inl TypeError"
| "call_try_fix_gstin U (PList xs) = Inl AttributeError"
| "call_try_fix_gstin U (PDict kvs) = Inl AttributeError"

definition StockiestGST :: pystr where
  "StockiestGST = cps ''StockiestGST''"

definition InstituteGST :: pystr where
  "InstituteGST = cps ''InstituteGST''"

text \<open>
  \<open>data.copy()\<close> is a new dictionary with the items of \<open>data\<close>; the input is not mutated,
  which a map passed by value gives for free.
\<close>

definition post_process_invoice_data :: "(codepoint \<Rightarrow> pystr) \<Rightarrow> pydict \<Rightarrow> py_error + pydict" where
  "post_process_invoice_data U data =
     (let processed = data in
      case (if truthy (dict_get processed StockiestGST) then
              (case dict_getitem processed StockiestGST of
                 Inl e \<Rightarrow> Inl e
               | Inr v \<Rightarrow>
                   (case call_try_fix_gstin U v of
                      Inl e \<Rightarrow> Inl e
                    | Inr r \<Rightarrow> Inr (processed(StockiestGST \<mapsto> r))))
            else Inr processed) of
        Inl e \<Rightarrow> Inl e
      | Inr processed \<Rightarrow>
          (if truthy (dict_get processed InstituteGST) then
             (case dict_getitem processed InstituteGST of
                Inl e \<Rightarrow> Inl e
              | Inr v \<Rightarrow>
                  (case call_try_fix_gstin U v of
                     Inl e \<Rightarrow> Inl e
                   | Inr r \<Rightarrow> Inr (processed(InstituteGST \<mapsto> r))))
           else Inr processed))"

section \<open>Notions the properties are stated with\<close>

text \<open>
  Entry \<open>m\<close> of the table repairs position \<open>i\<close> of the working copy \<open>chars\<close>: the character
  there is the entry's wrong character, and the copy with the replacement written at \<open>i\<close>
  passes the validator. \<open>fixable\<close> says so of the \<open>k\<close>-th entry of \<open>AMBIGUOUS_MAPS\<close>, and
  \<open>substitute\<close> is that candidate.
\<close>

definition repairs :: "(codepoint \<Rightarrow> pystr) \<Rightarrow> pystr \<Rightarrow> nat \<Rightarrow> codepoint \<times> codepoint \<Rightarrow> bool" where
  "repairs U chars i m = (chars ! i = fst m \<and> is_valid_gstin_format U (chars[i := snd m]))"

definition fixable :: "(codepoint \<Rightarrow> pystr) \<Rightarrow> pystr \<Rightarrow> nat \<Rightarrow> nat \<Rightarrow> bool" where
  "fixable U chars i k =
     (i < length chars \<and> k < length AMBIGUOUS_MAPS \<and> repairs U chars i (AMBIGUOUS_MAPS ! k))"

definition substitute :: "pystr \<Rightarrow> nat \<Rightarrow> nat \<Rightarrow> pystr" where
  "substitute chars i k = chars[i := snd (AMBIGUOUS_MAPS ! k)]"

text \<open>
  \<open>first_fix U chars i j k\<close>: among the positions from \<open>i\<close> on, \<open>(j, k)\<close> is the first
  fixable pair in scan order, positions left to right and at one position the entries in
  table order.
\<close>

definition first_fix :: "(codepoint \<Rightarrow> pystr) \<Rightarrow> pystr \<Rightarrow> nat \<Rightarrow> nat \<Rightarrow> nat \<Rightarrow> bool" where
  "first_fix U chars i j k =
     (i \<le> j \<and> fixable U chars j k
      \<and> (\<forall>j' k'. i \<le> j' \<and> fixable U chars j' k' \<longrightarrow> j < j' \<or> (j = j' \<and> k \<le> k')))"

text \<open>The number of positions at which two strings differ.\<close>

definition diff_count :: "pystr \<Rightarrow> pystr \<Rightarrow> nat" where
  "diff_count xs ys = length (filter (\<lambda>(x, y). x \<noteq> y) (zip xs ys))"

text \<open>
  The Validity Grammar in the words of the specification: exactly 15 characters,
  positions 1-2 digits, 3-7 uppercase letters, 8-11 digits, 12 an uppercase letter,
  13 one of 1-9 or an uppercase letter, 14 the literal Z, 15 a digit or an uppercase
  letter. \<open>spec_is_valid\<close> is the specification's validator: the uppercased string has
  length 15 and matches.
\<close>

definition grammar :: "pystr \<Rightarrow> bool" where
  "grammar t =
     (length t = 15
      \<and> is_digit (t ! 0) \<and> is_digit (t ! 1)
      \<and> is_letter (t ! 2) \<and> is_letter (t ! 3) \<and> is_letter (t ! 4)
      \<and> is_letter (t ! 5) \<and> is_letter (t ! 6)
      \<and> is_digit (t ! 7) \<and> is_digit (t ! 8) \<and> is_digit (t ! 9) \<and> is_digit (t ! 10)
      \<and> is_letter (t ! 11)
      \<and> ((ord CHR ''1'' \<le> t ! 12 \<and> t ! 12 \<le> ord CHR ''9'') \<or> is_letter (t ! 12))
      \<and> t ! 13 = ord CHR ''Z''
      \<and> (is_digit (t ! 14) \<or> is_letter (t ! 14)))"

definition spec_is_valid :: "(codepoint \<Rightarrow> pystr) \<Rightarrow> pystr \<Rightarrow> bool" where
  "spec_is_valid U s = grammar (upper U s)"

text \<open>
  What the dead table entry needs of the runtime's table: no uppercase mapping contains
  a lowercase ASCII letter (true of the Unicode tables: uppercasing yields uppercase
  letters, caseless characters and combining marks).
\<close>

definition is_ascii_lower :: "codepoint \<Rightarrow> bool" where
  "is_ascii_lower c = (ord CHR ''a'' \<le> c \<and> c \<le> ord CHR ''z'')"

definition no_ascii_lower :: "(codepoint \<Rightarrow> pystr) \<Rightarrow> bool" where
  "no_ascii_lower U = (\<forall>c x. 128 \<le> c \<and> x \<in> set (U c) \<longrightarrow> \<not> is_ascii_lower x)"

text \<open>The fields that \<open>post_process_invoice_data\<close> repairs hold strings where they are present.\<close>

fun str_or_absent :: "pyval option \<Rightarrow> bool" where
  "str_or_absent None = True"
| "str_or_absent (Some (PStr s)) = True"
| "str_or_absent (Some v) = False"

section \<open>The two loops\<close>

declare scan_chars.simps [simp del]

lemma try_maps_at:
  assumes "i < length chars" and "chars ! i = ch"
  shows "try_maps U i ch maps chars =
     Inr (case find (repairs U chars i) maps of
            None \<Rightarrow> Continue chars
          | Some m \<Rightarrow> Return (chars[i := snd m]))"
proof (induction maps)
  case Nil
  show ?case by simp
next
  case (Cons m maps)
  obtain wrong alt where m: "m = (wrong, alt)" by (cases m)
  have undo: "chars[i := alt, i := ch] = chars"
    using assms(2) list_update_id [of chars i] by simp
  have set1: "list_setitem chars i alt = Inr (chars[i := alt])"
    using assms(1) by (simp add: list_setitem_def)
  have set2: "list_setitem (chars[i := alt]) i ch = Inr chars"
    using assms(1) undo by (simp add: list_setitem_def)
  show ?case
  proof (cases "ch = wrong")
    case False
    then show ?thesis
      using Cons by (simp add: m repairs_def assms(2))
  next
    case True
    show ?thesis
    proof (cases "is_valid_gstin_format U (chars[i := alt])")
      case valid: True
      have "try_maps U i ch (m # maps) chars = Inr (Return (chars[i := alt]))"
        unfolding m using True valid set1 by simp
      moreover have "find (repairs U chars i) (m # maps) = Some m"
        using True valid by (simp add: m repairs_def assms(2))
      ultimately show ?thesis by (simp add: m)
    next
      case invalid: False
      have "try_maps U i ch (m # maps) chars = try_maps U i ch maps chars"
        unfolding m using True invalid set1 set2 by simp
      moreover have "find (repairs U chars i) (m # maps) = find (repairs U chars i) maps"
        using invalid by (simp add: m repairs_def)
      ultimately show ?thesis using Cons by simp
    qed
  qed
qed

lemma try_maps_in_range:
  assumes "i < length chars"
  shows "try_maps U i (chars ! i) maps chars =
     Inr (case find (repairs U chars i) maps of
            None \<Rightarrow> Continue chars
          | Some m \<Rightarrow> Return (chars[i := snd m]))"
  using assms by (rule try_maps_at) simp

lemma try_maps_Continue:
  assumes "i < length chars" and "\<forall>k. \<not> fixable U chars i k"
  shows "try_maps U i (chars ! i) AMBIGUOUS_MAPS chars = Inr (Continue chars)"
proof -
  have "\<not> repairs U chars i m" if "m \<in> set AMBIGUOUS_MAPS" for m
  proof -
    from that obtain k where "k < length AMBIGUOUS_MAPS" and "m = AMBIGUOUS_MAPS ! k"
      by (auto simp: in_set_conv_nth)
    with assms show ?thesis by (auto simp: fixable_def)
  qed
  then have "find (repairs U chars i) AMBIGUOUS_MAPS = None"
    by (simp add: find_None_iff)
  then show ?thesis
    by (simp add: try_maps_in_range [OF assms(1)])
qed

lemma try_maps_Return:
  assumes "fixable U chars i k" and "\<forall>k'<k. \<not> fixable U chars i k'"
  shows "try_maps U i (chars ! i) AMBIGUOUS_MAPS chars = Inr (Return (substitute chars i k))"
proof -
  have i: "i < length chars" and k: "k < length AMBIGUOUS_MAPS"
    and here: "repairs U chars i (AMBIGUOUS_MAPS ! k)"
    using assms(1) by (simp_all add: fixable_def)
  have before: "\<not> repairs U chars i (AMBIGUOUS_MAPS ! j)" if "j < k" for j
    using assms(2) that i k by (auto simp: fixable_def)
  have "find (repairs U chars i) AMBIGUOUS_MAPS = Some (AMBIGUOUS_MAPS ! k)"
    unfolding find_Some_iff
    by (rule exI [of _ k]) (simp add: k here before)
  then show ?thesis
    by (simp add: try_maps_in_range [OF i] substitute_def)
qed

lemma try_maps_cases:
  assumes "i < length chars"
  shows "try_maps U i (chars ! i) AMBIGUOUS_MAPS chars = Inr (Continue chars) \<and> (\<forall>k. \<not> fixable U chars i k)
       \<or> (\<exists>k. fixable U chars i k \<and> (\<forall>k'<k. \<not> fixable U chars i k')
             \<and> try_maps U i (chars ! i) AMBIGUOUS_MAPS chars = Inr (Return (substitute chars i k)))"
proof (cases "\<exists>k. fixable U chars i k")
  case False
  then show ?thesis using try_maps_Continue [OF assms] by simp
next
  case True
  define k where "k = (LEAST k. fixable U chars i k)"
  have "fixable U chars i k"
    unfolding k_def using True by (rule LeastI_ex)
  moreover have "\<forall>k'<k. \<not> fixable U chars i k'"
    unfolding k_def using not_less_Least by blast
  ultimately show ?thesis using try_maps_Return by blast
qed

lemma first_fix_here:
  assumes "fixable U chars i k" and "\<forall>k'<k. \<not> fixable U chars i k'"
  shows "first_fix U chars i i k"
  unfolding first_fix_def
proof (intro conjI allI impI)
  fix j' k'
  assume a: "i \<le> j' \<and> fixable U chars j' k'"
  show "i < j' \<or> (i = j' \<and> k \<le> k')"
  proof (cases "i = j'")
    case True
    with a assms(2) have "\<not> k' < k" by blast
    with True show ?thesis by simp
  next
    case False
    with a show ?thesis by simp
  qed
qed (use assms in simp_all)

lemma first_fix_later:
  assumes "first_fix U chars (Suc i) j k" and "\<forall>k. \<not> fixable U chars i k"
  shows "first_fix U chars i j k"
  unfolding first_fix_def
proof (intro conjI allI impI)
  fix j' k'
  assume a: "i \<le> j' \<and> fixable U chars j' k'"
  with assms(2) have "i \<noteq> j'" by blast
  with a have "Suc i \<le> j' \<and> fixable U chars j' k'" by simp
  with assms(1) show "j < j' \<or> (j = j' \<and> k \<le> k')"
    unfolding first_fix_def by blast
qed (use assms(1) in \<open>simp_all add: first_fix_def\<close>)

lemma scan_chars_cases:
  "scan_chars U i chars = Inr None \<and> (\<forall>j k. i \<le> j \<longrightarrow> \<not> fixable U chars j k)
   \<or> (\<exists>j k. first_fix U chars i j k \<and> scan_chars U i chars = Inr (Some (substitute chars j k)))"
proof (induction U i chars rule: scan_chars.induct)
  case (1 U i chars)
  show ?case
  proof (cases "i < length chars")
    case False
    then have "scan_chars U i chars = Inr None" by (subst scan_chars.simps) simp
    moreover have "\<not> fixable U chars j k" if "i \<le> j" for j k
      using False that by (simp add: fixable_def)
    ultimately show ?thesis by blast
  next
    case True
    from try_maps_cases [OF True, of U] show ?thesis
    proof (elim disjE conjE exE)
      assume c: "try_maps U i (chars ! i) AMBIGUOUS_MAPS chars = Inr (Continue chars)"
        and none: "\<forall>k. \<not> fixable U chars i k"
      have step: "scan_chars U i chars = scan_chars U (Suc i) chars"
        using True c by (subst scan_chars.simps) simp
      from "1.IH" [OF True c refl] show ?thesis
      proof (elim disjE conjE exE)
        assume r: "scan_chars U (Suc i) chars = Inr None"
          and later: "\<forall>j k. Suc i \<le> j \<longrightarrow> \<not> fixable U chars j k"
        have "\<not> fixable U chars j k" if "i \<le> j" for j k
        proof (cases "i = j")
          case True
          with none show ?thesis by simp
        next
          case False
          with that have "Suc i \<le> j" by simp
          with later show ?thesis by simp
        qed
        with r step show ?thesis by simp
      next
        fix j k
        assume ff: "first_fix U chars (Suc i) j k"
          and r: "scan_chars U (Suc i) chars = Inr (Some (substitute chars j k))"
        have "first_fix U chars i j k"
          using ff none by (rule first_fix_later)
        with step r show ?thesis by auto
      qed
    next
      fix k
      assume fx: "fixable U chars i k" and least: "\<forall>k'<k. \<not> fixable U chars i k'"
        and r: "try_maps U i (chars ! i) AMBIGUOUS_MAPS chars = Inr (Return (substitute chars i k))"
      have "scan_chars U i chars = Inr (Some (substitute chars i k))"
        using True r by (subst scan_chars.simps) simp
      moreover have "first_fix U chars i i k"
        using fx least by (rule first_fix_here)
      ultimately show ?thesis by blast
    qed
  qed
qed


section \<open>Consequences for \<open>try_fix_gstin\<close>\<close>

lemma try_fix_gstin_cases:
  "is_valid_gstin_format U s \<and> try_fix_gstin U s = Inr s
   \<or> \<not> is_valid_gstin_format U s \<and> (\<forall>j k. \<not> fixable U (upper U s) j k)
       \<and> try_fix_gstin U s = Inr s
   \<or> \<not> is_valid_gstin_format U s
       \<and> (\<exists>j k. first_fix U (upper U s) 0 j k
             \<and> try_fix_gstin U s = Inr (substitute (upper U s) j k))"
proof (cases "is_valid_gstin_format U s")
  case True
  then show ?thesis by (simp add: try_fix_gstin_def)
next
  case False
  from scan_chars_cases [of U 0 "upper U s"] show ?thesis
  proof (elim disjE conjE exE)
    assume "scan_chars U 0 (upper U s) = Inr None"
      and "\<forall>j k. 0 \<le> j \<longrightarrow> \<not> fixable U (upper U s) j k"
    with False show ?thesis by (simp add: try_fix_gstin_def)
  next
    fix j k
    assume "first_fix U (upper U s) 0 j k"
      and "scan_chars U 0 (upper U s) = Inr (Some (substitute (upper U s) j k))"
    with False show ?thesis by (auto simp: try_fix_gstin_def)
  qed
qed

lemma fixable_valid:
  "fixable U chars j k \<Longrightarrow> is_valid_gstin_format U (substitute chars j k)"
  by (simp add: fixable_def repairs_def substitute_def)

lemma table_wrong_neq_alt:
  "k < length AMBIGUOUS_MAPS \<Longrightarrow> fst (AMBIGUOUS_MAPS ! k) \<noteq> snd (AMBIGUOUS_MAPS ! k)"
  by (auto simp: AMBIGUOUS_MAPS_def ord_def nth_Cons' )

lemma diff_count_same: "diff_count xs xs = 0"
  by (induction xs) (simp_all add: diff_count_def)

lemma diff_count_update:
  "i < length xs \<Longrightarrow> xs ! i \<noteq> v \<Longrightarrow> diff_count (xs[i := v]) xs = 1"
proof (induction xs arbitrary: i)
  case Nil
  then show ?case by simp
next
  case (Cons x xs)
  show ?case
  proof (cases i)
    case 0
    with Cons.prems diff_count_same [of xs] show ?thesis
      by (simp add: diff_count_def)
  next
    case (Suc n)
    with Cons.prems have "diff_count (xs[n := v]) xs = 1"
      by (intro Cons.IH) simp_all
    with Suc show ?thesis by (simp add: diff_count_def)
  qed
qed

lemma fixable_single_edit:
  assumes "fixable U chars j k"
  shows "length (substitute chars j k) = length chars \<and> diff_count (substitute chars j k) chars = 1"
proof -
  have j: "j < length chars" and k: "k < length AMBIGUOUS_MAPS"
    and at: "chars ! j = fst (AMBIGUOUS_MAPS ! k)"
    using assms by (simp_all add: fixable_def repairs_def)
  from table_wrong_neq_alt [OF k] at have "chars ! j \<noteq> snd (AMBIGUOUS_MAPS ! k)"
    by simp
  with j show ?thesis
    by (simp add: substitute_def diff_count_update)
qed

section \<open>The pattern and the grammar\<close>

lemma list15:
  assumes "length (t :: 'a list) = 15"
  obtains a0 a1 a2 a3 a4 a5 a6 a7 a8 a9 a10 a11 a12 a13 a14
  where "t = [a0, a1, a2, a3, a4, a5, a6, a7, a8, a9, a10, a11, a12, a13, a14]"
proof -
  have idx: "[0..<15] = [0, 1, 2, 3, 4, 5, 6, 7, 8, 9, 10, 11, 12, 13, 14 :: nat]"
    by code_simp
  from map_nth [of t] assms
  have "t = [t ! 0, t ! 1, t ! 2, t ! 3, t ! 4, t ! 5, t ! 6, t ! 7, t ! 8, t ! 9,
             t ! 10, t ! 11, t ! 12, t ! 13, t ! 14]"
    by (simp add: idx)
  then show thesis by (rule that)
qed

lemma pattern_unfold:
  "pattern = [Digit, Digit, Letter, Letter, Letter, Letter, Letter, Digit, Digit, Digit, Digit,
              Letter, Digit19_or_Letter, Literal_Z, Digit_or_Letter]"
  by (simp add: pattern_def numeral_eq_Suc)

lemma re_match_pattern_15:
  assumes "length t = 15"
  shows "re_match_pattern t = grammar t"
proof -
  from assms obtain a0 a1 a2 a3 a4 a5 a6 a7 a8 a9 a10 a11 a12 a13 a14
    where t: "t = [a0, a1, a2, a3, a4, a5, a6, a7, a8, a9, a10, a11, a12, a13, a14]"
    by (rule list15)
  show ?thesis
    unfolding t re_match_pattern_def pattern_unfold grammar_def
    by (auto simp: at_dollar_def)
qed

lemma upper_ascii_length:
  "\<forall>c \<in> set s. c < 128 \<Longrightarrow> length (upper U s) = length s"
  by (induction s) (simp_all add: upper_def upper_cp_def)

lemma upper_no_ascii_lower:
  assumes "no_ascii_lower U" and "x \<in> set (upper U s)"
  shows "\<not> is_ascii_lower x"
proof -
  from assms(2) obtain c where c: "x \<in> set (upper_cp U c)"
    by (auto simp: upper_def)
  show ?thesis
  proof (cases "c < 128")
    case True
    with c have "x = ascii_upper c" by (simp add: upper_cp_def)
    then show ?thesis
      by (auto simp: ascii_upper_def is_ascii_lower_def ord_def split: if_splits)
  next
    case False
    with c have "128 \<le> c \<and> x \<in> set (U c)" by (simp add: upper_cp_def)
    with assms(1) show ?thesis
      unfolding no_ascii_lower_def by blast
  qed
qed

section \<open>The properties\<close>

subsection \<open>C1: a repaired string is valid\<close>

text \<open>
  C1. For every string \<open>s\<close>: if \<open>try_fix_gstin\<close> returns a string other than \<open>s\<close>, the
  returned string passes \<open>is_valid_gstin_format\<close>. The corrector never returns a string
  that is modified and still invalid.
\<close>

theorem repaired_is_valid:
  assumes "try_fix_gstin U s = Inr r" and "r \<noteq> s"
  shows "is_valid_gstin_format U r"
proof -
  from try_fix_gstin_cases [of U s] assms
  obtain j k where "first_fix U (upper U s) 0 j k" and "r = substitute (upper U s) j k"
    by auto
  then show ?thesis
    by (simp add: first_fix_def fixable_valid)
qed

text \<open>
  C1 at the input \<open>07AAFC18134F1ZM\<close>, whose digit 1 in the seventh place is repaired to
  the letter I.
\<close>

theorem repaired_is_valid_witness:
  "try_fix_gstin sharp_s_upper (cps ''07AAFC18134F1ZM'') = Inr (cps ''07AAFCI8134F1ZM'')
   \<and> cps ''07AAFCI8134F1ZM'' \<noteq> cps ''07AAFC18134F1ZM''
   \<and> is_valid_gstin_format sharp_s_upper (cps ''07AAFCI8134F1ZM'')"
proof -
  have run: "try_fix_gstin sharp_s_upper (cps ''07AAFC18134F1ZM'') = Inr (cps ''07AAFCI8134F1ZM'')"
    by code_simp
  have ne: "cps ''07AAFCI8134F1ZM'' \<noteq> cps ''07AAFC18134F1ZM''"
    by code_simp
  from repaired_is_valid [OF run ne] run ne show ?thesis by simp
qed

subsection \<open>C2: one edit, of the uppercased input\<close>

text \<open>
  C2 as stated fails: the candidate is built from the uppercased working copy, so on a
  lowercase input the result differs from the input at every lowercase letter as well.
  \<open>07aafc18134f1zm\<close> is repaired to \<open>07AAFCI8134F1ZM\<close>, which differs from it in eight
  positions.
\<close>

theorem single_edit_lowercase_counterexample:
  "try_fix_gstin sharp_s_upper (cps ''07aafc18134f1zm'') = Inr (cps ''07AAFCI8134F1ZM'')
   \<and> cps ''07AAFCI8134F1ZM'' \<noteq> cps ''07aafc18134f1zm''
   \<and> diff_count (cps ''07AAFCI8134F1ZM'') (cps ''07aafc18134f1zm'') = 8"
  by code_simp

text \<open>
  C2, amended. For every string \<open>s\<close>: whenever \<open>try_fix_gstin\<close> returns a string other than
  \<open>s\<close>, the returned string has the length of the uppercased input \<open>s.upper()\<close> and
  differs from it in exactly one position.
\<close>

theorem single_edit_of_uppercased:
  assumes "try_fix_gstin U s = Inr r" and "r \<noteq> s"
  shows "length r = length (upper U s) \<and> diff_count r (upper U s) = 1"
proof -
  from try_fix_gstin_cases [of U s] assms
  obtain j k where "fixable U (upper U s) j k" and r: "r = substitute (upper U s) j k"
    by (auto simp: first_fix_def)
  then show ?thesis
    unfolding r by (intro fixable_single_edit)
qed

text \<open>
  C2 amended, at the lowercase input above.
\<close>

theorem single_edit_of_uppercased_witness:
  "try_fix_gstin sharp_s_upper (cps ''07aafc18134f1zm'') = Inr (cps ''07AAFCI8134F1ZM'')
   \<and> cps ''07AAFCI8134F1ZM'' \<noteq> cps ''07aafc18134f1zm''
   \<and> length (cps ''07AAFCI8134F1ZM'') = length (upper sharp_s_upper (cps ''07aafc18134f1zm''))
   \<and> diff_count (cps ''07AAFCI8134F1ZM'') (upper sharp_s_upper (cps ''07aafc18134f1zm'')) = 1"
proof -
  have run: "try_fix_gstin sharp_s_upper (cps ''07aafc18134f1zm'') = Inr (cps ''07AAFCI8134F1ZM'')"
    by code_simp
  have ne: "cps ''07AAFCI8134F1ZM'' \<noteq> cps ''07aafc18134f1zm''"
    by code_simp
  from single_edit_of_uppercased [OF run ne] run ne show ?thesis by simp
qed

subsection \<open>C3: the validator and the grammar\<close>

text \<open>
  C3 as stated fails: the validator takes the length of the string as given, before
  uppercasing, and uppercasing can lengthen a string. The 14 characters
  \<open>07AAA\<close>, U+00DF, \<open>8134F1ZM\<close> uppercase to the 15 characters \<open>07AAASS8134F1ZM\<close>, which
  match the grammar, and the validator rejects them at its length guard.
\<close>

theorem grammar_length_after_upper_counterexample:
  "\<not> is_valid_gstin_format sharp_s_upper (cps ''07AAA'' @ [223] @ cps ''8134F1ZM'')
   \<and> spec_is_valid sharp_s_upper (cps ''07AAA'' @ [223] @ cps ''8134F1ZM'')"
  by code_simp

text \<open>
  C3, amended. For every string \<open>s\<close>: \<open>is_valid_gstin_format\<close> holds only if \<open>s\<close> itself
  has length 15; and for every \<open>s\<close> whose uppercased form has the length of \<open>s\<close>, in
  particular every ASCII string, it holds if and only if the uppercased \<open>s\<close> has length 15
  and matches the positional grammar. The empty string is rejected; a lowercase ASCII
  string that matches after uppercasing is accepted.
\<close>

theorem is_valid_gstin_format_grammar:
  "(is_valid_gstin_format U s \<longrightarrow> length s = 15)
   \<and> (length (upper U s) = length s \<longrightarrow> is_valid_gstin_format U s = spec_is_valid U s)
   \<and> ((\<forall>c \<in> set s. c < 128) \<longrightarrow> is_valid_gstin_format U s = spec_is_valid U s)
   \<and> \<not> is_valid_gstin_format U []"
proof -
  have same: "is_valid_gstin_format U s = spec_is_valid U s"
    if len: "length (upper U s) = length s"
  proof (cases "length s = 15")
    case True
    with len have "re_match_pattern (upper U s) = grammar (upper U s)"
      by (intro re_match_pattern_15) simp
    with True show ?thesis
      by (simp add: is_valid_gstin_format_def spec_is_valid_def)
  next
    case False
    with len have "\<not> grammar (upper U s)"
      by (simp add: grammar_def)
    with False show ?thesis
      by (simp add: is_valid_gstin_format_def spec_is_valid_def)
  qed
  have "is_valid_gstin_format U s \<longrightarrow> length s = 15"
    by (simp add: is_valid_gstin_format_def)
  moreover have "length (upper U s) = length s \<longrightarrow> is_valid_gstin_format U s = spec_is_valid U s"
    using same by blast
  moreover have "(\<forall>c \<in> set s. c < 128) \<longrightarrow> is_valid_gstin_format U s = spec_is_valid U s"
    using same upper_ascii_length [of s U] by blast
  moreover have "\<not> is_valid_gstin_format U []"
    by (simp add: is_valid_gstin_format_def)
  ultimately show ?thesis by blast
qed

text \<open>
  C3 amended, at the lowercase string \<open>07aafci8134f1zm\<close>.
\<close>

theorem is_valid_gstin_format_grammar_witness:
  "length (upper sharp_s_upper (cps ''07aafci8134f1zm'')) = length (cps ''07aafci8134f1zm'')
   \<and> length (cps ''07aafci8134f1zm'') = 15
   \<and> spec_is_valid sharp_s_upper (cps ''07aafci8134f1zm'')
   \<and> is_valid_gstin_format sharp_s_upper (cps ''07aafci8134f1zm'')"
proof -
  have len: "length (upper sharp_s_upper (cps ''07aafci8134f1zm'')) = length (cps ''07aafci8134f1zm'')"
    by code_simp
  have ascii: "\<forall>c \<in> set (cps ''07aafci8134f1zm''). c < 128"
    by code_simp
  have spec: "spec_is_valid sharp_s_upper (cps ''07aafci8134f1zm'')"
    by code_simp
  have l15: "length (cps ''07aafci8134f1zm'') = 15"
    by code_simp
  from is_valid_gstin_format_grammar [of sharp_s_upper "cps ''07aafci8134f1zm''"] len ascii spec l15
  show ?thesis by blast
qed

text \<open>
  The strings the amended C3 says nothing about are those of length 15 that uppercasing
  lengthens. One of them is accepted through the anchor \<^verbatim>\<open>$\<close>: 14 characters that
  uppercase to a valid 15, followed by a newline.
\<close>

lemma dollar_accepts_trailing_newline:
  "is_valid_gstin_format sharp_s_upper (cps ''07AAA'' @ [223] @ cps ''8134F1ZM'' @ [10])
   \<and> upper sharp_s_upper (cps ''07AAA'' @ [223] @ cps ''8134F1ZM'' @ [10])
       = cps ''07AAASS8134F1ZM'' @ [10]"
  by code_simp

subsection \<open>C4: idempotence\<close>

text \<open>
  C4. For every string \<open>s\<close>, \<open>try_fix_gstin\<close> applied to its own result gives that result
  again: \<open>try_fix_gstin(try_fix_gstin(s)) == try_fix_gstin(s)\<close>.
\<close>

theorem try_fix_gstin_idempotent:
  "(case try_fix_gstin U s of Inl e \<Rightarrow> Inl e | Inr r \<Rightarrow> try_fix_gstin U r) = try_fix_gstin U s"
proof -
  from try_fix_gstin_cases [of U s]
  consider "try_fix_gstin U s = Inr s"
    | j k where "fixable U (upper U s) j k" and "try_fix_gstin U s = Inr (substitute (upper U s) j k)"
    by (auto simp: first_fix_def)
  then show ?thesis
  proof cases
    case 1
    then show ?thesis by simp
  next
    case 2
    from fixable_valid [OF 2(1)]
    have "try_fix_gstin U (substitute (upper U s) j k) = Inr (substitute (upper U s) j k)"
      by (simp add: try_fix_gstin_def)
    with 2(2) show ?thesis by simp
  qed
qed

text \<open>
  C4 at a lowercase input that is repaired: the second call returns the repaired
  string as it is.
\<close>

theorem try_fix_gstin_idempotent_witness:
  "try_fix_gstin sharp_s_upper (cps ''07aafc18134f1zm'') = Inr (cps ''07AAFCI8134F1ZM'')
   \<and> try_fix_gstin sharp_s_upper (cps ''07AAFCI8134F1ZM'') = Inr (cps ''07AAFCI8134F1ZM'')"
proof -
  have run: "try_fix_gstin sharp_s_upper (cps ''07aafc18134f1zm'') = Inr (cps ''07AAFCI8134F1ZM'')"
    by code_simp
  from try_fix_gstin_idempotent [of sharp_s_upper "cps ''07aafc18134f1zm''"] run
  show ?thesis by simp
qed

subsection \<open>C5: the first match wins\<close>

text \<open>
  C5. The search is greedy, first match first. For every string \<open>s\<close> that reaches the
  search (the validator rejects it) and has positions of its uppercased working copy
  which some table entry repairs into a valid string, two or more or only one,
  \<open>try_fix_gstin\<close> returns the repair at the earliest such position scanned, by the
  earliest such entry of \<open>AMBIGUOUS_MAPS\<close> in table order at that position, and goes no
  further.
\<close>

theorem first_match:
  assumes "\<not> is_valid_gstin_format U s" and "fixable U (upper U s) i k"
  shows "\<exists>i0 k0. first_fix U (upper U s) 0 i0 k0
           \<and> try_fix_gstin U s = Inr (substitute (upper U s) i0 k0)"
  using try_fix_gstin_cases [of U s] assms by blast

text \<open>
  C5 at an invalid input with two repairable positions (the thirteenth and the fifteenth
  of its uppercased copy): the earlier one is repaired.
\<close>

theorem first_match_witness:
  "\<not> is_valid_gstin_format sharp_s_upper (cps ''07AAA'' @ [223] @ cps ''8134F8Z0'')
   \<and> fixable sharp_s_upper (upper sharp_s_upper (cps ''07AAA'' @ [223] @ cps ''8134F8Z0'')) 12 0
   \<and> fixable sharp_s_upper (upper sharp_s_upper (cps ''07AAA'' @ [223] @ cps ''8134F8Z0'')) 14 1
   \<and> try_fix_gstin sharp_s_upper (cps ''07AAA'' @ [223] @ cps ''8134F8Z0'') = Inr (cps ''07AAASS8134FBZ0'')
   \<and> (\<exists>i0 k0. first_fix sharp_s_upper (upper sharp_s_upper (cps ''07AAA'' @ [223] @ cps ''8134F8Z0'')) 0 i0 k0
         \<and> try_fix_gstin sharp_s_upper (cps ''07AAA'' @ [223] @ cps ''8134F8Z0'')
             = Inr (substitute (upper sharp_s_upper (cps ''07AAA'' @ [223] @ cps ''8134F8Z0'')) i0 k0))"
proof -
  have inv: "\<not> is_valid_gstin_format sharp_s_upper (cps ''07AAA'' @ [223] @ cps ''8134F8Z0'')"
    by code_simp
  have f12: "fixable sharp_s_upper (upper sharp_s_upper (cps ''07AAA'' @ [223] @ cps ''8134F8Z0'')) 12 0"
    by code_simp
  have f14: "fixable sharp_s_upper (upper sharp_s_upper (cps ''07AAA'' @ [223] @ cps ''8134F8Z0'')) 14 1"
    by code_simp
  have run: "try_fix_gstin sharp_s_upper (cps ''07AAA'' @ [223] @ cps ''8134F8Z0'') = Inr (cps ''07AAASS8134FBZ0'')"
    by code_simp
  from first_match [OF inv f14] inv f12 f14 run show ?thesis by blast
qed

subsection \<open>C6: valid input is returned as it is\<close>

text \<open>
  C6. For every string \<open>s\<close> that \<open>is_valid_gstin_format\<close> accepts, \<open>try_fix_gstin\<close> returns
  \<open>s\<close> itself, in its original casing.
\<close>

theorem valid_input_unchanged:
  "is_valid_gstin_format U s \<Longrightarrow> try_fix_gstin U s = Inr s"
  by (simp add: try_fix_gstin_def)

text \<open>
  C6 at a lowercase valid input, returned in lowercase.
\<close>

theorem valid_input_unchanged_witness:
  "is_valid_gstin_format sharp_s_upper (cps ''07aafci8134f1zm'')
   \<and> try_fix_gstin sharp_s_upper (cps ''07aafci8134f1zm'') = Inr (cps ''07aafci8134f1zm'')"
proof -
  have v: "is_valid_gstin_format sharp_s_upper (cps ''07aafci8134f1zm'')"
    by code_simp
  from valid_input_unchanged [OF v] v show ?thesis by simp
qed

subsection \<open>C7: the scenario with a lowercase l\<close>

text \<open>
  C7 as stated fails: on the input \<open>07AAFCl8134F1ZM\<close> the result is not
  \<open>07AAFC18134F1ZM\<close>.
\<close>

theorem scenario_l_counterexample:
  "try_fix_gstin sharp_s_upper (cps ''07AAFCl8134F1ZM'') \<noteq> Inr (cps ''07AAFC18134F1ZM'')"
  by code_simp

text \<open>
  C7, amended. The input \<open>07AAFCl8134F1ZM\<close> is valid, since uppercased its seventh
  character is the letter L, and \<open>try_fix_gstin\<close> returns it unchanged.
\<close>

theorem scenario_l_unchanged:
  "is_valid_gstin_format U (cps ''07AAFCl8134F1ZM'')
   \<and> try_fix_gstin U (cps ''07AAFCl8134F1ZM'') = Inr (cps ''07AAFCl8134F1ZM'')"
  by code_simp

text \<open>
  C7 amended, with the table of the concrete evaluations.
\<close>

theorem scenario_l_unchanged_witness:
  "try_fix_gstin sharp_s_upper (cps ''07AAFCl8134F1ZM'') = Inr (cps ''07AAFCl8134F1ZM'')"
  using scenario_l_unchanged [of sharp_s_upper] by simp

subsection \<open>C8: no exception\<close>

text \<open>
  C8. For every string, \<open>try_fix_gstin\<close> returns a string: both loops end and neither
  assignment to \<open>chars[i]\<close> is out of range. \<open>is_valid_gstin_format\<close> has no statement
  that can raise on a string, and is a function to \<open>bool\<close>.
\<close>

theorem try_fix_gstin_total:
  "\<exists>r. try_fix_gstin U s = Inr r"
  using try_fix_gstin_cases [of U s] by auto

text \<open>
  C8 at the empty string.
\<close>

theorem try_fix_gstin_total_witness:
  "\<exists>r. try_fix_gstin sharp_s_upper [] = Inr r"
  using try_fix_gstin_total [of sharp_s_upper "[]"] .

subsection \<open>C9: the two fields of the invoice\<close>

lemma fix_field_step:
  assumes "str_or_absent (p K)"
  shows "\<exists>p'. (if truthy (dict_get p K) then
                 (case dict_getitem p K of
                    Inl e \<Rightarrow> Inl e
                  | Inr v \<Rightarrow>
                      (case call_try_fix_gstin U v of
                         Inl e \<Rightarrow> Inl e
                       | Inr r \<Rightarrow> Inr (p(K \<mapsto> r))))
               else Inr p) = Inr p'
          \<and> (\<forall>k. k \<noteq> K \<longrightarrow> p' k = p k)
          \<and> (\<forall>s. p K = Some (PStr s) \<and> s \<noteq> []
                \<longrightarrow> (\<exists>r. try_fix_gstin U s = Inr r \<and> p' K = Some (PStr r)))
          \<and> (p K = None \<or> p K = Some (PStr []) \<longrightarrow> p' K = p K)"
proof (cases "p K")
  case None
  then show ?thesis by (simp add: dict_get_def)
next
  case (Some v)
  with assms obtain s where v: "v = PStr s" by (cases v) simp_all
  show ?thesis
  proof (cases "s = []")
    case True
    with Some v show ?thesis by (simp add: dict_get_def)
  next
    case False
    from try_fix_gstin_cases [of U s] obtain r where r: "try_fix_gstin U s = Inr r" by auto
    with Some v False show ?thesis
      by (simp add: dict_get_def dict_getitem_def)
  qed
qed

text \<open>
  C9. For every mapping whose two fields \<open>StockiestGST\<close> and \<open>InstituteGST\<close> hold strings
  where they are present, \<open>post_process_invoice_data\<close> returns a mapping in which each of
  the two is replaced by \<open>try_fix_gstin\<close> of its value when that value is a non-empty
  string, is left as it is when empty or absent, and every other key is unchanged.
\<close>

theorem post_process_invoice_data_frame:
  assumes "str_or_absent (data StockiestGST)" and "str_or_absent (data InstituteGST)"
  shows "\<exists>out. post_process_invoice_data U data = Inr out
     \<and> (\<forall>k. k \<noteq> StockiestGST \<and> k \<noteq> InstituteGST \<longrightarrow> out k = data k)
     \<and> (\<forall>k s. (k = StockiestGST \<or> k = InstituteGST) \<and> data k = Some (PStr s) \<and> s \<noteq> []
          \<longrightarrow> (\<exists>r. try_fix_gstin U s = Inr r \<and> out k = Some (PStr r)))
     \<and> (\<forall>k. (k = StockiestGST \<or> k = InstituteGST) \<and> (data k = None \<or> data k = Some (PStr []))
          \<longrightarrow> out k = data k)"
proof -
  have ne: "StockiestGST \<noteq> InstituteGST"
    by (simp add: StockiestGST_def InstituteGST_def cps_def ord_def)
  from fix_field_step [of data StockiestGST U, OF assms(1)] obtain p1 where
    s1: "(if truthy (dict_get data StockiestGST) then
            (case dict_getitem data StockiestGST of
               Inl e \<Rightarrow> Inl e
             | Inr v \<Rightarrow>
                 (case call_try_fix_gstin U v of
                    Inl e \<Rightarrow> Inl e
                  | Inr r \<Rightarrow> Inr (data(StockiestGST \<mapsto> r))))
          else Inr data) = Inr p1"
    and o1: "\<forall>k. k \<noteq> StockiestGST \<longrightarrow> p1 k = data k"
    and f1: "\<forall>s. data StockiestGST = Some (PStr s) \<and> s \<noteq> []
                \<longrightarrow> (\<exists>r. try_fix_gstin U s = Inr r \<and> p1 StockiestGST = Some (PStr r))"
    and e1: "data StockiestGST = None \<or> data StockiestGST = Some (PStr []) \<longrightarrow> p1 StockiestGST = data StockiestGST"
    by blast
  from o1 ne have same2: "p1 InstituteGST = data InstituteGST" by simp
  with assms(2) have "str_or_absent (p1 InstituteGST)" by simp
  from fix_field_step [of p1 InstituteGST U, OF this] obtain p2 where
    s2: "(if truthy (dict_get p1 InstituteGST) then
            (case dict_getitem p1 InstituteGST of
               Inl e \<Rightarrow> Inl e
             | Inr v \<Rightarrow>
                 (case call_try_fix_gstin U v of
                    Inl e \<Rightarrow> Inl e
                  | Inr r \<Rightarrow> Inr (p1(InstituteGST \<mapsto> r))))
          else Inr p1) = Inr p2"
    and o2: "\<forall>k. k \<noteq> InstituteGST \<longrightarrow> p2 k = p1 k"
    and f2: "\<forall>s. p1 InstituteGST = Some (PStr s) \<and> s \<noteq> []
                \<longrightarrow> (\<exists>r. try_fix_gstin U s = Inr r \<and> p2 InstituteGST = Some (PStr r))"
    and e2: "p1 InstituteGST = None \<or> p1 InstituteGST = Some (PStr []) \<longrightarrow> p2 InstituteGST = p1 InstituteGST"
    by blast
  have run: "post_process_invoice_data U data = Inr p2"
    unfolding post_process_invoice_data_def Let_def s1 using s2 by simp
  have other: "\<forall>k. k \<noteq> StockiestGST \<and> k \<noteq> InstituteGST \<longrightarrow> p2 k = data k"
    using o1 o2 by simp
  have k1: "p2 StockiestGST = p1 StockiestGST"
    using o2 ne by simp
  have fixed: "\<forall>k s. (k = StockiestGST \<or> k = InstituteGST) \<and> data k = Some (PStr s) \<and> s \<noteq> []
          \<longrightarrow> (\<exists>r. try_fix_gstin U s = Inr r \<and> p2 k = Some (PStr r))"
    using f1 f2 k1 same2 by auto
  have kept: "\<forall>k. (k = StockiestGST \<or> k = InstituteGST) \<and> (data k = None \<or> data k = Some (PStr []))
          \<longrightarrow> p2 k = data k"
    using e1 e2 k1 same2 by auto
  from run other fixed kept show ?thesis by blast
qed

text \<open>
  C9 at an invoice with a repairable supplier field, an empty recipient field and a
  date.
\<close>

theorem post_process_invoice_data_frame_witness:
  "str_or_absent
     ([StockiestGST \<mapsto> PStr (cps ''07AAFC18134F1ZM''), InstituteGST \<mapsto> PStr [],
       cps ''InvoiceDate'' \<mapsto> PStr (cps ''06 Oct 2023'')] StockiestGST)
   \<and> str_or_absent
     ([StockiestGST \<mapsto> PStr (cps ''07AAFC18134F1ZM''), InstituteGST \<mapsto> PStr [],
       cps ''InvoiceDate'' \<mapsto> PStr (cps ''06 Oct 2023'')] InstituteGST)
   \<and> (\<exists>out. post_process_invoice_data sharp_s_upper
              [StockiestGST \<mapsto> PStr (cps ''07AAFC18134F1ZM''), InstituteGST \<mapsto> PStr [],
               cps ''InvoiceDate'' \<mapsto> PStr (cps ''06 Oct 2023'')] = Inr out
          \<and> out StockiestGST = Some (PStr (cps ''07AAFCI8134F1ZM''))
          \<and> out InstituteGST = Some (PStr [])
          \<and> out (cps ''InvoiceDate'') = Some (PStr (cps ''06 Oct 2023'')))"
proof -
  let ?d = "[StockiestGST \<mapsto> PStr (cps ''07AAFC18134F1ZM''), InstituteGST \<mapsto> PStr [],
             cps ''InvoiceDate'' \<mapsto> PStr (cps ''06 Oct 2023'')]"
  have k1: "?d StockiestGST = Some (PStr (cps ''07AAFC18134F1ZM''))"
    by (simp add: StockiestGST_def InstituteGST_def cps_def ord_def)
  have k2: "?d InstituteGST = Some (PStr [])"
    by (simp add: StockiestGST_def InstituteGST_def cps_def ord_def)
  have k3: "?d (cps ''InvoiceDate'') = Some (PStr (cps ''06 Oct 2023''))"
    by simp
  have n1: "cps ''InvoiceDate'' \<noteq> StockiestGST" and n2: "cps ''InvoiceDate'' \<noteq> InstituteGST"
    by (simp_all add: StockiestGST_def InstituteGST_def cps_def ord_def)
  have ne: "cps ''07AAFC18134F1ZM'' \<noteq> []"
    by (simp add: cps_def)
  have run: "try_fix_gstin sharp_s_upper (cps ''07AAFC18134F1ZM'') = Inr (cps ''07AAFCI8134F1ZM'')"
    by code_simp
  have h1: "str_or_absent (?d StockiestGST)" and h2: "str_or_absent (?d InstituteGST)"
    by (simp_all only: k1 k2 str_or_absent.simps)
  from post_process_invoice_data_frame [OF h1 h2, of sharp_s_upper]
  obtain out where r: "post_process_invoice_data sharp_s_upper ?d = Inr out"
    and other: "\<forall>k. k \<noteq> StockiestGST \<and> k \<noteq> InstituteGST \<longrightarrow> out k = ?d k"
    and fixed: "\<forall>k s. (k = StockiestGST \<or> k = InstituteGST) \<and> ?d k = Some (PStr s) \<and> s \<noteq> []
          \<longrightarrow> (\<exists>r. try_fix_gstin sharp_s_upper s = Inr r \<and> out k = Some (PStr r))"
    and kept: "\<forall>k. (k = StockiestGST \<or> k = InstituteGST) \<and> (?d k = None \<or> ?d k = Some (PStr []))
          \<longrightarrow> out k = ?d k"
    by blast
  from fixed k1 ne run have o1: "out StockiestGST = Some (PStr (cps ''07AAFCI8134F1ZM''))"
    by fastforce
  from kept k2 have o2: "out InstituteGST = Some (PStr [])"
    by fastforce
  from other n1 n2 k3 have o3: "out (cps ''InvoiceDate'') = Some (PStr (cps ''06 Oct 2023''))"
    by fastforce
  from h1 h2 r o1 o2 o3 show ?thesis by blast
qed

subsection \<open>C10: the entry for a lowercase l is dead\<close>

text \<open>
  C10. Provided uppercasing never yields a lowercase ASCII letter, as is the case for
  the Unicode tables, then for every input string \<open>s\<close>: the working copy of
  \<open>try_fix_gstin\<close> holds no lowercase \<open>l\<close> at any position, so no position is ever
  repaired by the table entry \<open>("l", "1")\<close>, and whenever \<open>try_fix_gstin\<close> returns a
  string other than \<open>s\<close>, that string is the working copy with the replacement of one of
  the first three entries written at one position: the branch of the fourth entry is
  never taken.
\<close>

theorem lowercase_l_entry_dead:
  assumes "no_ascii_lower U"
  shows "AMBIGUOUS_MAPS ! 3 = (ord CHR ''l'', ord CHR ''1'')
     \<and> (\<forall>i < length (upper U s). upper U s ! i \<noteq> ord CHR ''l'')
     \<and> (\<forall>i. \<not> fixable U (upper U s) i 3)
     \<and> (\<forall>r. try_fix_gstin U s = Inr r \<and> r \<noteq> s
           \<longrightarrow> (\<exists>j k. k < 3 \<and> first_fix U (upper U s) 0 j k
                       \<and> r = substitute (upper U s) j k))"
proof -
  have entry: "AMBIGUOUS_MAPS ! 3 = (ord CHR ''l'', ord CHR ''1'')"
    by (simp add: AMBIGUOUS_MAPS_def)
  have lower: "is_ascii_lower (ord CHR ''l'')"
    by (simp add: is_ascii_lower_def ord_def)
  have no_l: "upper U s ! i \<noteq> ord CHR ''l''" if "i < length (upper U s)" for i
  proof -
    from that have "upper U s ! i \<in> set (upper U s)" by simp
    from upper_no_ascii_lower [OF assms this] lower show ?thesis by auto
  qed
  have dead: "\<not> fixable U (upper U s) i 3" for i
    using no_l [of i] by (auto simp: fixable_def repairs_def entry)
  have used: "\<exists>j k. k < 3 \<and> first_fix U (upper U s) 0 j k \<and> r = substitute (upper U s) j k"
    if run: "try_fix_gstin U s = Inr r" and ne: "r \<noteq> s" for r
  proof -
    from try_fix_gstin_cases [of U s] run ne
    obtain j k where ff: "first_fix U (upper U s) 0 j k"
      and r: "r = substitute (upper U s) j k"
      by auto
    from ff have fx: "fixable U (upper U s) j k"
      by (simp add: first_fix_def)
    then have "k < length AMBIGUOUS_MAPS"
      by (simp add: fixable_def)
    then have "k < 4"
      by (simp add: AMBIGUOUS_MAPS_def)
    moreover from fx dead have "k \<noteq> 3"
      by blast
    ultimately have "k < 3" by simp
    with ff r show ?thesis by blast
  qed
  from entry no_l dead used show ?thesis by blast
qed

text \<open>
  C10 at the input \<open>07AAFl18134F1ZM\<close>: its lowercase l is an uppercase L in the working
  copy and stays one in the result; the repair is the digit 1 of the seventh place, by
  the third entry.
\<close>

theorem lowercase_l_entry_dead_witness:
  "no_ascii_lower sharp_s_upper
   \<and> cps ''07AAFl18134F1ZM'' ! 5 = ord CHR ''l''
   \<and> upper sharp_s_upper (cps ''07AAFl18134F1ZM'') ! 5 \<noteq> ord CHR ''l''
   \<and> try_fix_gstin sharp_s_upper (cps ''07AAFl18134F1ZM'') = Inr (cps ''07AAFLI8134F1ZM'')
   \<and> cps ''07AAFLI8134F1ZM'' \<noteq> cps ''07AAFl18134F1ZM''
   \<and> (\<forall>i. \<not> fixable sharp_s_upper (upper sharp_s_upper (cps ''07AAFl18134F1ZM'')) i 3)
   \<and> (\<exists>j k. k < 3 \<and> first_fix sharp_s_upper (upper sharp_s_upper (cps ''07AAFl18134F1ZM'')) 0 j k
          \<and> cps ''07AAFLI8134F1ZM'' = substitute (upper sharp_s_upper (cps ''07AAFl18134F1ZM'')) j k)"
proof -
  have h: "no_ascii_lower sharp_s_upper"
    by (auto simp: no_ascii_lower_def sharp_s_upper_def is_ascii_lower_def cps_def ord_def
             split: if_splits)
  have at5: "cps ''07AAFl18134F1ZM'' ! 5 = ord CHR ''l''"
    by code_simp
  have len: "5 < length (upper sharp_s_upper (cps ''07AAFl18134F1ZM''))"
    by code_simp
  have run: "try_fix_gstin sharp_s_upper (cps ''07AAFl18134F1ZM'') = Inr (cps ''07AAFLI8134F1ZM'')"
    by code_simp
  have ne: "cps ''07AAFLI8134F1ZM'' \<noteq> cps ''07AAFl18134F1ZM''"
    by code_simp
  from lowercase_l_entry_dead [OF h, of "cps ''07AAFl18134F1ZM''"] h at5 len run ne
  show ?thesis by blast
qed

end
